theory Spec2Isabelle
  imports Main
begin

section \<open>Data model\<close>

text \<open>
  The source's node type is
  \<^verbatim>\<open>interface User { id: number; address: string; referrals?: User[]; }\<close>.
  The optional field is an \<open>option\<close>: \<open>None\<close> is \<^verbatim>\<open>undefined\<close> (children never
  fetched), \<open>Some []\<close> is the empty array (fetched, no children), \<open>Some cs\<close> with
  \<open>cs \<noteq> []\<close> is a populated array. Identifiers are integers here; no operation of the
  genealogy tree computes with them.
\<close>

datatype user = User (uid: int) (address: string) (referrals: "user list option")

text \<open>
  JavaScript truthiness of the \<^verbatim>\<open>referrals\<close> field: \<^verbatim>\<open>undefined\<close> is falsy, every
  array is truthy, the empty one included.
\<close>

fun truthy :: "user list option \<Rightarrow> bool" where
  "truthy None = False"
| "truthy (Some cs) = True"

section \<open>Address formatting\<close>

text \<open>
  \<^verbatim>\<open>String.prototype.substring(start, end)\<close>: both indices are clamped to
  \<open>[0, length]\<close> and swapped when the start exceeds the end; it raises on no input.
  With one argument the end is the length of the string. A JavaScript string is a
  sequence of UTF-16 code units and both functions count in them; an element of the
  list stands for one code unit.
\<close>

definition substring :: "int \<Rightarrow> int \<Rightarrow> 'a list \<Rightarrow> 'a list" where
  "substring start end s =
     (let len = int (length s);
          finalStart = min (max start 0) len;
          finalEnd = min (max end 0) len;
          from = min finalStart finalEnd;
          to = max finalStart finalEnd
      in take (nat (to - from)) (drop (nat from) s))"

definition substring_from :: "int \<Rightarrow> 'a list \<Rightarrow> 'a list" where
  "substring_from start s = substring start (int (length s)) s"

definition formatAddress :: "string \<Rightarrow> string" where
  "formatAddress addr =
     substring 0 6 addr @ ''...'' @ substring_from (int (length addr) - 4) addr"

section \<open>The merge of fetched children into the snapshot\<close>

text \<open>
  \<^verbatim>\<open>updateNode\<close>, the local function of \<^verbatim>\<open>updateUserReferrals\<close>: a node with
  the target address gets the new children and is not descended into; any other node
  with a non-empty children array is rebuilt with every child mapped; any other node is
  returned as it is.
\<close>

fun updateNode :: "string \<Rightarrow> user list \<Rightarrow> user \<Rightarrow> user" where
  "updateNode userAddress refs (User i a rs) =
     (if a = userAddress then User i a (Some refs)
      else (case rs of
              Some cs \<Rightarrow>
                (if cs \<noteq> [] then User i a (Some (map (updateNode userAddress refs) cs))
                 else User i a rs)
            | None \<Rightarrow> User i a rs))"

text \<open>
  \<^verbatim>\<open>updateUserReferrals\<close> on the page state \<^verbatim>\<open>genealogyData: User | null\<close>:
  nothing happens while there is no snapshot.
\<close>

fun updateUserReferrals :: "string \<Rightarrow> user list \<Rightarrow> user option \<Rightarrow> user option" where
  "updateUserReferrals userAddress refs None = None"
| "updateUserReferrals userAddress refs (Some genealogyData) =
     Some (updateNode userAddress refs genealogyData)"

section \<open>Aggregation\<close>

text \<open>
  \<^verbatim>\<open>countTotalUsers\<close>: the counter starts at 1 and, when \<^verbatim>\<open>referrals\<close> is truthy,
  the loop adds the count of each child in order.
\<close>

fun countTotalUsers :: "user \<Rightarrow> nat" where
  "countTotalUsers (User i a rs) =
     (case rs of
        Some cs \<Rightarrow> fold (\<lambda>referral count. count + countTotalUsers referral) cs 1
      | None \<Rightarrow> 1)"

text \<open>
  The header of the page, \<^verbatim>\<open>{genealogyData?.referrals && (... Total ... Direct ...)}\<close>:
  the two counters are rendered exactly when \<^verbatim>\<open>referrals\<close> is truthy, and then
  \<^verbatim>\<open>Direct\<close> shows \<^verbatim>\<open>genealogyData.referrals.length\<close>.
\<close>

record counters =
  total :: nat
  direct :: nat

fun header :: "user \<Rightarrow> counters option" where
  "header (User i a rs) =
     (if truthy rs
      then (case rs of
              Some cs \<Rightarrow> Some \<lparr>total = countTotalUsers (User i a rs), direct = length cs\<rparr>
            | None \<Rightarrow> None)
      else None)"

definition directReferralCount :: "user \<Rightarrow> nat option" where
  "directReferralCount genealogyData = map_option direct (header genealogyData)"

section \<open>The node controller\<close>

text \<open>
  The two \<^verbatim>\<open>useState\<close> cells of a \<^verbatim>\<open>TreeNode\<close>. The spec's three phases are read
  off them: a fetch in flight is \<open>Expanding\<close>, otherwise the expanded flag decides.
\<close>

record node_state =
  isExpanded :: bool
  isLoading :: bool

datatype phase = Collapsed | Expanding | Expanded

definition phase_of :: "node_state \<Rightarrow> phase" where
  "phase_of st = (if isLoading st then Expanding else if isExpanded st then Expanded else Collapsed)"

text \<open>\<^verbatim>\<open>useState(level === 0)\<close> and \<^verbatim>\<open>useState(false)\<close>.\<close>

definition initial_state :: "nat \<Rightarrow> node_state" where
  "initial_state level = \<lparr>isExpanded = (level = 0), isLoading = False\<rparr>"

text \<open>
  \<^verbatim>\<open>hasChildren\<close> and \<^verbatim>\<open>childrenFetched\<close> as the component computes them from its
  \<^verbatim>\<open>user\<close> prop.
\<close>

definition hasChildren :: "user \<Rightarrow> bool" where
  "hasChildren u =
     (referrals u = None \<or> (case referrals u of Some cs \<Rightarrow> length cs > 0 | None \<Rightarrow> False))"

definition childrenFetched :: "user \<Rightarrow> bool" where
  "childrenFetched u = (referrals u \<noteq> None)"

text \<open>
  What a toggle does to the outside world, in order: a request to the referral data
  source for the children of an address, and a line on the error console.
\<close>

datatype event = Fetch string | ConsoleError string

text \<open>
  \<^verbatim>\<open>loadChildren\<close>: the promise is rejected without any request when the web3 context
  has no \<^verbatim>\<open>fetchUserReferrals\<close>; otherwise the request is issued and its outcome is
  the outcome of the promise (\<open>Inl\<close> is a rejection).
\<close>

type_synonym fetcher = "string \<Rightarrow> string + user list"

fun loadChildren :: "fetcher option \<Rightarrow> string \<Rightarrow> event list \<times> (string + user list)" where
  "loadChildren None userAddress = ([], Inl ''Web3 context not available'')"
| "loadChildren (Some fetchUserReferrals) userAddress =
     ([Fetch userAddress], fetchUserReferrals userAddress)"

text \<open>
  \<^verbatim>\<open>handleExpandToggle\<close>, run to completion: the component state, the page's snapshot
  and the events issued. The handler awaits the promise, so the data source's answer is
  a parameter of the run. After the \<^verbatim>\<open>try\<close>/\<^verbatim>\<open>catch\<close>/\<^verbatim>\<open>finally\<close> the handler
  goes on to \<^verbatim>\<open>setIsExpanded(true)\<close> whether the promise was fulfilled or rejected.
\<close>

definition handleExpandToggle ::
  "fetcher option \<Rightarrow> user \<Rightarrow> node_state \<times> user option
     \<Rightarrow> (node_state \<times> user option) \<times> event list" where
  "handleExpandToggle web3 u s =
     (let (st, genealogyData) = s in
      if isExpanded st then ((st\<lparr>isExpanded := False\<rparr>, genealogyData), [])
      else if \<not> childrenFetched u then
        (let st1 = st\<lparr>isLoading := True\<rparr>;
             (evs, outcome) = loadChildren web3 (address u);
             (genealogyData', evs') =
               (case outcome of
                  Inr children \<Rightarrow>
                    (updateUserReferrals (address u) children genealogyData, evs)
                | Inl err \<Rightarrow> (genealogyData, evs @ [ConsoleError err]));
             st2 = st1\<lparr>isLoading := False\<rparr>
         in ((st2\<lparr>isExpanded := True\<rparr>, genealogyData'), evs'))
      else ((st\<lparr>isExpanded := True\<rparr>, genealogyData), []))"

text \<open>
  The state of the handler while the promise is pending, after \<^verbatim>\<open>setIsLoading(true)\<close>.
\<close>

definition awaiting :: "user \<Rightarrow> node_state \<Rightarrow> node_state option" where
  "awaiting u st =
     (if \<not> isExpanded st \<and> \<not> childrenFetched u then Some (st\<lparr>isLoading := True\<rparr>) else None)"

section \<open>Rendering\<close>

text \<open>
  What a \<^verbatim>\<open>TreeNode\<close> renders, as far as the tree is concerned: the node it shows,
  its \<^verbatim>\<open>level\<close> prop, the chain of React keys that identifies the component instance
  (children are keyed by \<^verbatim>\<open>child.address\<close>), whether the expand/collapse button is
  there, and the child instances. The component state is read from a map over key
  chains, which is a parameter, so that what is proved of a rendering holds whatever
  the components' states are.

  Children are rendered under
  \<^verbatim>\<open>isExpanded && childrenFetched && user.referrals && user.referrals.length > 0 && level < 10\<close>;
  in the branch \<open>Some cs\<close> the second and third conjuncts hold.
\<close>

datatype vnode =
  VNode (vuser: user) (vlevel: nat) (vkey: "string list") (vbutton: bool)
    (vchildren: "vnode list")

fun TreeNode :: "(string list \<Rightarrow> node_state) \<Rightarrow> string list \<Rightarrow> user \<Rightarrow> nat \<Rightarrow> vnode" where
  "TreeNode states parent (User i a rs) level =
     VNode (User i a rs) level (parent @ [a]) (hasChildren (User i a rs))
       (case rs of
          Some cs \<Rightarrow>
            (if isExpanded (states (parent @ [a])) \<and> length cs > 0 \<and> level < 10
             then map (\<lambda>child. TreeNode states (parent @ [a]) child (level + 1)) cs
             else [])
        | None \<Rightarrow> [])"

text \<open>All component instances of a rendering, parents before children.\<close>

fun instances :: "vnode \<Rightarrow> vnode list" where
  "instances (VNode u l k b vs) = VNode u l k b vs # concat (map instances vs)"

section \<open>The page\<close>

text \<open>
  The page holds the snapshot (\<^verbatim>\<open>genealogyData\<close>) and, through React, the state of
  every component instance. It renders the root with \<^verbatim>\<open>level={0}\<close>.
\<close>

record page =
  genealogyData :: "user option"
  states :: "string list \<Rightarrow> node_state"

definition render :: "page \<Rightarrow> vnode list" where
  "render pg =
     (case genealogyData pg of
        None \<Rightarrow> []
      | Some root \<Rightarrow> instances (TreeNode (states pg) [] root 0))"

definition init_page :: "user \<Rightarrow> page" where
  "init_page root =
     \<lparr>genealogyData = Some root, states = (\<lambda>k. initial_state (length k - 1))\<rparr>"

text \<open>
  A click on the toggle control of the instance with key chain \<open>k\<close>. Only a rendered
  instance with a button that is not disabled (\<^verbatim>\<open>disabled={isLoading}\<close>) runs the
  handler; the handler sees the instance's \<^verbatim>\<open>user\<close> prop.

  Two limits of this model of a click. The handler runs to completion within the click,
  so two requests in flight at the same time, each merging into the snapshot that its
  own render captured, are not represented. And the state map keeps the entry of a
  component that is no longer rendered, where React starts such a component afresh when
  it is rendered again. What is proved below about clicks on every page is proved for
  every state map, and the example page is made by clicks that only expand nodes.
\<close>

definition click :: "fetcher option \<Rightarrow> string list \<Rightarrow> page \<Rightarrow> page \<times> event list" where
  "click web3 k pg =
     (case find (\<lambda>v. vkey v = k) (render pg) of
        None \<Rightarrow> (pg, [])
      | Some v \<Rightarrow>
          (if vbutton v \<and> \<not> isLoading (states pg k)
           then (let ((st', g'), evs) =
                       handleExpandToggle web3 (vuser v) (states pg k, genealogyData pg)
                 in (pg\<lparr>genealogyData := g', states := (states pg)(k := st')\<rparr>, evs))
           else (pg, [])))"

section \<open>The merge on objects with identity\<close>

text \<open>
  Which nodes of the result are the objects of the input and which are new is a matter
  of references, which values of type \<open>user\<close> do not have. Here every node object
  carries its reference, and \<^verbatim>\<open>updateNode\<close> threads the next free reference:
  an object spread \<^verbatim>\<open>{ ...node, referrals }\<close> allocates a new object, and
  \<^verbatim>\<open>return node\<close> returns the object it was given. \<^verbatim>\<open>Array.prototype.map\<close>
  calls the function on the elements from left to right.
\<close>

datatype obj = Obj (ref: nat) (oid: int) (oaddress: string) (oreferrals: "obj list option")

fun updateNodeH :: "string \<Rightarrow> obj list \<Rightarrow> obj \<Rightarrow> nat \<Rightarrow> obj \<times> nat"
  and mapUpdateNodeH :: "string \<Rightarrow> obj list \<Rightarrow> obj list \<Rightarrow> nat \<Rightarrow> obj list \<times> nat" where
  "updateNodeH userAddress refs (Obj r i a rs) next =
     (if a = userAddress then (Obj next i a (Some refs), next + 1)
      else (case rs of
              Some cs \<Rightarrow>
                (if cs \<noteq> []
                 then (let (cs', next') = mapUpdateNodeH userAddress refs cs (next + 1)
                       in (Obj next i a (Some cs'), next'))
                 else (Obj r i a rs, next))
            | None \<Rightarrow> (Obj r i a rs, next)))"
| "mapUpdateNodeH userAddress refs [] next = ([], next)"
| "mapUpdateNodeH userAddress refs (c # cs) next =
     (let (c', next1) = updateNodeH userAddress refs c next;
          (cs', next2) = mapUpdateNodeH userAddress refs cs next1
      in (c' # cs', next2))"

text \<open>The value of an object, and the references of the objects of a tree.\<close>

fun erase :: "obj \<Rightarrow> user" where
  "erase (Obj r i a rs) = User i a (map_option (map erase) rs)"

fun refs_of :: "obj \<Rightarrow> nat list" where
  "refs_of (Obj r i a rs) =
     r # (case rs of Some cs \<Rightarrow> concat (map refs_of cs) | None \<Rightarrow> [])"

text \<open>The number of calls of \<^verbatim>\<open>updateNode\<close> that one merge makes.\<close>

fun updateNode_calls :: "string \<Rightarrow> user \<Rightarrow> nat" where
  "updateNode_calls userAddress (User i a rs) =
     (if a = userAddress then 1
      else (case rs of
              Some cs \<Rightarrow>
                (if cs \<noteq> [] then 1 + sum_list (map (updateNode_calls userAddress) cs) else 1)
            | None \<Rightarrow> 1))"

text \<open>
  Positions in a tree of objects are lists of child indices. \<open>subtree_at t p\<close> is
  the node at position \<open>p\<close> of \<open>t\<close>, and \<open>reached a t p\<close> says that the position exists
  and no node strictly above it on the way from the root has the address \<open>a\<close>: these
  are the nodes the merge at \<open>a\<close> gets to. \<open>below a u\<close> is the number of nodes that lie
  strictly below a reached node with the address \<open>a\<close>.
\<close>

fun subtree_at :: "obj \<Rightarrow> nat list \<Rightarrow> obj option" where
  "subtree_at t [] = Some t"
| "subtree_at t (k # p) =
     (case oreferrals t of
        Some cs \<Rightarrow> (if k < length cs then subtree_at (cs ! k) p else None)
      | None \<Rightarrow> None)"

fun reached :: "string \<Rightarrow> obj \<Rightarrow> nat list \<Rightarrow> bool" where
  "reached a t [] = True"
| "reached a t (k # p) =
     (oaddress t \<noteq> a \<and>
      (case oreferrals t of
         Some cs \<Rightarrow> k < length cs \<and> reached a (cs ! k) p
       | None \<Rightarrow> False))"

fun below :: "string \<Rightarrow> user \<Rightarrow> nat" where
  "below a (User i ad rs) =
     (if ad = a then countTotalUsers (User i ad rs) - 1
      else (case rs of Some cs \<Rightarrow> sum_list (map (below a) cs) | None \<Rightarrow> 0))"

section \<open>Nodes of a snapshot\<close>

text \<open>
  The nodes reachable from a node through known children, the node first, and their
  addresses and identifiers.
\<close>

fun nodes :: "user \<Rightarrow> user list" where
  "nodes (User i a rs) =
     User i a rs # (case rs of Some cs \<Rightarrow> concat (map nodes cs) | None \<Rightarrow> [])"

definition addresses :: "user \<Rightarrow> string list" where
  "addresses u = map address (nodes u)"

definition ids :: "user \<Rightarrow> int list" where
  "ids u = map uid (nodes u)"

section \<open>The demo generator\<close>

text \<open>
  \<^verbatim>\<open>String.prototype.charAt\<close> gives the empty string out of range.
\<close>

definition charAt :: "string \<Rightarrow> nat \<Rightarrow> string" where
  "charAt s k = (if k < length s then [s ! k] else [])"

definition characters :: string where
  "characters = ''0123456789abcdef''"

text \<open>
  JavaScript numbers are IEEE 754 doubles. The product of two non-negative integers
  that are doubles is their exact product rounded to a significand of 53 bits, ties to
  the even significand: \<open>round_double p\<close> for the exact product \<open>p\<close>, which is \<open>p\<close>
  itself below \<open>2^53\<close>. \<open>bitlen\<close> is the number of binary digits.
\<close>

fun bitlen :: "nat \<Rightarrow> nat" where
  "bitlen n = (if n = 0 then 0 else Suc (bitlen (n div 2)))"

definition round_double :: "nat \<Rightarrow> nat" where
  "round_double p =
     (if p < 2 ^ 53 then p
      else (let e = bitlen p - 53;
                q = p div 2 ^ e;
                r = p mod 2 ^ e;
                h = 2 ^ (e - 1)
            in if h < r \<or> (r = h \<and> odd q) then (q + 1) * 2 ^ e else q * 2 ^ e))"

text \<open>
  \<^verbatim>\<open>generateDemoAddress\<close> appends forty characters to \<^verbatim>\<open>"0x"\<close>, the one for
  \<open>i\<close> at index \<^verbatim>\<open>(seed * (i + 1)) % characters.length\<close>. The seed is a number;
  the generator passes node identifiers, so it is a natural number here. The product is
  a product of doubles, the remainder of a double by 16 is exact, and \<open>i + 1\<close> is at
  most 40. Where the product is beyond the largest double it is \<^verbatim>\<open>Infinity\<close>, the
  remainder is \<^verbatim>\<open>NaN\<close> and \<^verbatim>\<open>charAt\<close> reads position 0; the rounded product
  is then a multiple of 16, so the index is 0 here too.
\<close>

definition generateDemoAddress :: "nat \<Rightarrow> string" where
  "generateDemoAddress seed =
     fold (\<lambda>i addr.
             addr @ charAt characters (round_double (seed * (i + 1)) mod length characters))
       [0..<40] ''0x''"

text \<open>
  \<^verbatim>\<open>createNode\<close> reads and increments the counter \<^verbatim>\<open>nodeId\<close> of the enclosing
  \<^verbatim>\<open>generateDemoTree\<close>; the counter is passed in and returned. It starts at 1 and
  is incremented thirty times, where the addition of doubles is exact. The loop over
  \<^verbatim>\<open>referralCount\<close> runs once when \<^verbatim>\<open>level < 10\<close> and not at all otherwise, and
  an empty \<^verbatim>\<open>referrals\<close> array is stored as \<^verbatim>\<open>undefined\<close>.
\<close>

function createNode :: "nat \<Rightarrow> nat \<Rightarrow> user \<times> nat" where
  "createNode level nodeId =
     (let currentId = nodeId;
          (referrals', nodeId') =
             (if level < 10
              then (let (child, n) = createNode (level + 1) (nodeId + 1) in ([child], n))
              else ([], nodeId + 1))
      in (User (int currentId) (generateDemoAddress currentId)
            (if length referrals' > 0 then Some referrals' else None),
          nodeId'))"
  by pat_completeness auto
termination
  by (relation "measure (\<lambda>(level, nodeId). 10 - level)") auto

definition generateDemoTree :: user where
  "generateDemoTree =
     (let (c1, n1) = createNode 1 1;
          (c2, n2) = createNode 1 n1;
          (c3, n3) = createNode 1 n2
      in User 0 ''0xYourDemoAddress1234567890'' (Some [c1, c2, c3]))"

section \<open>Example snapshots and pages\<close>

text \<open>
  A root with two children X and Y whose children have not been fetched, a component
  state that is neither expanded nor loading, and a data source that rejects every
  request.
\<close>

definition nodeX :: user where
  "nodeX = User 1 ''0xX'' None"

definition nodeY :: user where
  "nodeY = User 2 ''0xY'' None"

definition scenario :: user where
  "scenario = User 0 ''0xR'' (Some [nodeX, nodeY])"

definition collapsed :: node_state where
  "collapsed = \<lparr>isExpanded = False, isLoading = False\<rparr>"

definition failing :: fetcher where
  "failing a = Inl ''network error''"

definition leaf_source :: fetcher where
  "leaf_source a = Inr []"

text \<open>
  A snapshot that is one line of nodes: \<open>line k n\<close> has \<open>k + 1\<close> nodes with the
  addresses \<open>label n\<close>, \<open>label (n + 1)\<close>, ..., and the last node's children have not
  been fetched. \<open>key d\<close> is the key chain of the node at depth \<open>d\<close> of \<open>line k 0\<close>.
  \<open>deep_page\<close> is the page on \<open>line 10 0\<close> after the viewer has clicked the nodes at
  depth 1 to 9 in turn, which expands them.
\<close>

definition label :: "nat \<Rightarrow> string" where
  "label n = ''0x'' @ replicate n (CHR ''a'')"

fun line :: "nat \<Rightarrow> nat \<Rightarrow> user" where
  "line 0 n = User (int n) (label n) None"
| "line (Suc k) n = User (int n) (label n) (Some [line k (Suc n)])"

definition key :: "nat \<Rightarrow> string list" where
  "key d = map label [0..<Suc d]"

definition deep_page :: page where
  "deep_page = foldl (\<lambda>pg d. fst (click None (key d) pg)) (init_page (line 10 0)) [1..<10]"

text \<open>
  A snapshot of objects: the root (reference 0) has the children X (reference 1), which
  has one child (reference 2), and Y (reference 3), whose children have not been
  fetched. \<open>ex_sibling\<close> is the subtree at X.
\<close>

definition ex_sibling :: obj where
  "ex_sibling = Obj 1 1 ''0xX'' (Some [Obj 2 3 ''0xX1'' None])"

definition ex_snapshot :: obj where
  "ex_snapshot = Obj 0 0 ''0xR'' (Some [ex_sibling, Obj 3 2 ''0xY'' None])"

definition child_refs :: "obj \<Rightarrow> nat list" where
  "child_refs t = (case oreferrals t of Some cs \<Rightarrow> map ref cs | None \<Rightarrow> [])"

section \<open>Auxiliary facts\<close>

lemma fold_count: "fold (\<lambda>r c. c + f r) cs (n::nat) = n + sum_list (map f cs)"
  by (induction cs arbitrary: n) auto

lemma countTotalUsers_unfold:
  "countTotalUsers (User i a rs) =
     (case rs of Some cs \<Rightarrow> 1 + sum_list (map countTotalUsers cs) | None \<Rightarrow> 1)"
  by (simp add: fold_count split: option.splits)

lemma length_concat_sum: "length (concat (map f cs)) = sum_list (map (\<lambda>c. length (f c)) cs)"
  by (induction cs) auto

lemma countTotalUsers_nodes: "countTotalUsers u = length (nodes u)"
proof (induction u rule: countTotalUsers.induct)
  case (1 i a rs)
  show ?case
  proof (cases rs)
    case None
    then show ?thesis by simp
  next
    case (Some cs)
    have "map countTotalUsers cs = map (\<lambda>c. length (nodes c)) cs"
      using 1 Some by (intro map_cong) auto
    then have "sum_list (map countTotalUsers cs) = sum_list (map (\<lambda>c. length (nodes c)) cs)"
      by (rule arg_cong)
    then have "sum_list (map countTotalUsers cs) = length (concat (map nodes cs))"
      by (simp only: length_concat_sum)
    then show ?thesis using Some
      by (simp add: countTotalUsers_unfold del: countTotalUsers.simps)
  qed
qed

lemma addresses_User:
  "addresses (User i a rs) =
     a # (case rs of Some cs \<Rightarrow> concat (map addresses cs) | None \<Rightarrow> [])"
  by (simp add: addresses_def [abs_def] map_concat comp_def split: option.splits)

lemma updateNode_absent:
  "userAddress \<notin> set (addresses u) \<Longrightarrow> updateNode userAddress refs u = u"
proof (induction userAddress refs u rule: updateNode.induct)
  case (1 userAddress refs i a rs)
  then show ?case by (auto simp: addresses_User split: option.splits intro: map_idI)
qed

lemma formatAddress_eq: "formatAddress s = take 6 s @ ''...'' @ drop (length s - 4) s"
proof -
  have "nat (int (length s) - 4) = length s - 4" by simp
  then show ?thesis
    unfolding formatAddress_def substring_def substring_from_def Let_def
    by (auto simp: min_def max_def)
qed

section \<open>Counting\<close>

text \<open>
  C6. \<^verbatim>\<open>countTotalUsers\<close> returns the number of nodes reachable from the root through
  known children: a node whose children are unknown or an empty array counts 1, a node
  with children counts 1 plus the counts of its children, and a root with the two
  children X and Y, both with unknown children, counts 3.
\<close>

theorem C6_countAll:
  "countTotalUsers u = length (nodes u)
   \<and> countTotalUsers (User i a None) = 1
   \<and> countTotalUsers (User i a (Some [])) = 1
   \<and> countTotalUsers (User i a (Some cs)) = 1 + sum_list (map countTotalUsers cs)
   \<and> countTotalUsers (User r ra (Some [User x xa None, User y ya None])) = 3"
  by (simp add: countTotalUsers_nodes [symmetric] fold_count)

section \<open>The merge\<close>

text \<open>
  C7. When no node of the snapshot has the target address, the merge returns the
  snapshot it was given, and the page's snapshot stays what it was.
\<close>

theorem C7_noop:
  assumes "a \<notin> set (addresses s)"
  shows "updateNode a c s = s \<and> updateUserReferrals a c (Some s) = Some s"
  using assms by (simp add: updateNode_absent)

theorem C7_noop_witness:
  "''0xZ'' \<notin> set (addresses (User 0 ''0xR'' (Some [User 1 ''0xX'' None, User 2 ''0xY'' (Some [])])))
   \<and> updateNode ''0xZ'' [User 3 ''0xW'' None]
         (User 0 ''0xR'' (Some [User 1 ''0xX'' None, User 2 ''0xY'' (Some [])]))
       = User 0 ''0xR'' (Some [User 1 ''0xX'' None, User 2 ''0xY'' (Some [])])"
proof -
  have h: "''0xZ'' \<notin> set (addresses (User 0 ''0xR'' (Some [User 1 ''0xX'' None, User 2 ''0xY'' (Some [])])))"
    by (simp add: addresses_User)
  show ?thesis using h C7_noop [OF h] by simp
qed

text \<open>
  C8. Merging the same children at the same address a second time changes nothing:
  the merge is idempotent, for every snapshot, address and children list.
\<close>

theorem C8_idempotent: "updateNode a c (updateNode a c s) = updateNode a c s"
proof (induction a c s rule: updateNode.induct)
  case (1 userAddress refs i a rs)
  then show ?case by (auto split: option.splits)
qed

section \<open>Formatting\<close>

text \<open>
  C10. \<^verbatim>\<open>formatAddress\<close> has a result on every string: the first six characters (or
  all, when there are fewer), three dots, and the last four characters (or all). On a
  string of at least ten characters that is the first six, the dots and the last four.
\<close>

theorem C10_formatAddress:
  "formatAddress s = take 6 s @ ''...'' @ drop (length s - 4) s
   \<and> length (formatAddress s) = min 6 (length s) + 3 + min 4 (length s)
   \<and> (10 \<le> length s \<longrightarrow>
        formatAddress s = take 6 s @ ''...'' @ rev (take 4 (rev s))
        \<and> length (take 6 s) = 6 \<and> length (rev (take 4 (rev s))) = 4)"
  by (auto simp: formatAddress_eq min_def rev_take)

theorem C10_formatAddress_witness:
  "10 \<le> length ''0x123456789abcdef0'' \<and> formatAddress ''0x123456789abcdef0'' = ''0x1234...def0''
   \<and> formatAddress ''abc'' = ''abc...abc'' \<and> formatAddress [] = ''...''"
  using C10_formatAddress [of "''0x123456789abcdef0''"] C10_formatAddress [of "''abc''"]
    C10_formatAddress [of "[]"]
  by simp

section \<open>Fetch failure\<close>

text \<open>
  C1, as stated, fails. On the example, Y is toggled while its children are unknown and
  the data source rejects the request: the component does not end collapsed, it ends
  with the expanded flag set, and the next toggle issues no request.
\<close>

theorem C1_counterexample:
  "phase_of (fst (fst (handleExpandToggle (Some failing) nodeY (collapsed, Some scenario))))
     = Expanded
   \<and> snd (handleExpandToggle (Some failing) nodeY
            (fst (handleExpandToggle (Some failing) nodeY (collapsed, Some scenario)))) = []"
  by (simp add: handleExpandToggle_def phase_of_def collapsed_def failing_def nodeY_def
       scenario_def childrenFetched_def Let_def)

text \<open>
  C1, amended. When a node with unknown children is toggled while not expanded, the
  handler sets the loading flag and issues the request; when the request is rejected,
  the error is logged, the loading flag is cleared, and the snapshot is the one before
  the toggle, so the node's children are still unknown. The handler leaves the expanded
  flag set: the next toggle clears it without a request, and a toggle of the node while
  it is not expanded issues the request again.
\<close>

theorem C1_fetch_failure:
  assumes "referrals u = None" and "\<not> isExpanded st" and "fetch (address u) = Inl err"
  shows "awaiting u st = Some (st\<lparr>isLoading := True\<rparr>)
     \<and> handleExpandToggle (Some fetch) u (st, g) =
         ((st\<lparr>isLoading := False, isExpanded := True\<rparr>, g),
          [Fetch (address u), ConsoleError err])
     \<and> handleExpandToggle ctx u (st\<lparr>isLoading := False, isExpanded := True\<rparr>, g) =
         ((st\<lparr>isLoading := False, isExpanded := False\<rparr>, g), [])
     \<and> snd (handleExpandToggle (Some fetch') u (st\<lparr>isLoading := False, isExpanded := False\<rparr>, g))
         = Fetch (address u) # (case fetch' (address u) of Inl e \<Rightarrow> [ConsoleError e] | Inr cs \<Rightarrow> [])"
  using assms
  by (auto simp: handleExpandToggle_def awaiting_def childrenFetched_def Let_def
        split: sum.splits prod.splits)

theorem C1_fetch_failure_witness:
  "referrals nodeY = None \<and> \<not> isExpanded collapsed
   \<and> failing (address nodeY) = Inl ''network error''
   \<and> handleExpandToggle (Some failing) nodeY (collapsed, Some scenario) =
         ((\<lparr>isExpanded = True, isLoading = False\<rparr>, Some scenario),
          [Fetch ''0xY'', ConsoleError ''network error''])"
proof -
  have h1: "referrals nodeY = None" by (simp add: nodeY_def)
  have h2: "\<not> isExpanded collapsed" by (simp add: collapsed_def)
  have h3: "failing (address nodeY) = Inl ''network error''" by (simp add: failing_def)
  show ?thesis
    using h1 h2 h3 C1_fetch_failure [where u = nodeY and st = collapsed and fetch = failing
        and err = "''network error''" and g = "Some scenario" and ctx = None and fetch' = failing]
    by (simp add: collapsed_def nodeY_def)
qed

section \<open>Sharing and cost of the merge\<close>

text \<open>The merge on objects computes the merge on values.\<close>

lemma updateNodeH_erase:
  "erase (fst (updateNodeH a c t n)) = updateNode a (map erase c) (erase t)"
  "map erase (fst (mapUpdateNodeH a c ts n)) = map (updateNode a (map erase c)) (map erase ts)"
  by (induction a c t n and a c ts n rule: updateNodeH_mapUpdateNodeH.induct)
     (auto split: option.splits prod.splits)

lemma updateNodeH_same:
  "ref t < n \<Longrightarrow>
     (fst (updateNodeH a c t n) = t) =
     (oaddress t \<noteq> a \<and> (oreferrals t = None \<or> oreferrals t = Some []))"
  by (cases t) (auto split: option.splits prod.splits)

lemma updateNodeH_mono:
  "n \<le> snd (updateNodeH a c t n)"
  "n \<le> snd (mapUpdateNodeH a c ts n)"
proof (induction a c t n and a c ts n rule: updateNodeH_mapUpdateNodeH.induct)
  case (1 userAddress refs r i a rs "next")
  then show ?case by (fastforce split: option.splits prod.splits)
next
  case (2 userAddress refs "next")
  show ?case by simp
next
  case (3 userAddress refs c cs "next")
  then show ?case by (fastforce split: prod.splits)
qed

lemma mapUpdateNodeH_Cons:
  "mapUpdateNodeH a c (t # ts) n =
     (fst (updateNodeH a c t n) # fst (mapUpdateNodeH a c ts (snd (updateNodeH a c t n))),
      snd (mapUpdateNodeH a c ts (snd (updateNodeH a c t n))))"
  by (simp add: case_prod_beta del: updateNodeH.simps)

lemma mapUpdateNodeH_length: "length (fst (mapUpdateNodeH a c ts n)) = length ts"
  by (induction ts arbitrary: n) (simp_all add: mapUpdateNodeH_Cons del: mapUpdateNodeH.simps(2))

lemma mapUpdateNodeH_nth:
  "k < length ts \<Longrightarrow>
     \<exists>m\<ge>n. fst (mapUpdateNodeH a c ts n) ! k = fst (updateNodeH a c (ts ! k) m)"
proof (induction ts arbitrary: n k)
  case Nil
  then show ?case by simp
next
  case (Cons t ts)
  show ?case
  proof (cases k)
    case 0
    then show ?thesis by (auto simp: mapUpdateNodeH_Cons simp del: updateNodeH.simps mapUpdateNodeH.simps(2))
  next
    case (Suc j)
    with Cons.prems have j: "j < length ts" by simp
    from Cons.IH [OF j, of "snd (updateNodeH a c t n)"]
    obtain m where m: "snd (updateNodeH a c t n) \<le> m"
      "fst (mapUpdateNodeH a c ts (snd (updateNodeH a c t n))) ! j = fst (updateNodeH a c (ts ! j) m)"
      by blast
    have "n \<le> m" using m(1) updateNodeH_mono(1) [of n a c t] by simp
    with m(2) Suc show ?thesis
      by (auto simp: mapUpdateNodeH_Cons simp del: updateNodeH.simps mapUpdateNodeH.simps(2))
  qed
qed


lemma subtree_at_refs:
  "subtree_at t p = Some sub \<Longrightarrow> set (refs_of sub) \<subseteq> set (refs_of t)"
proof (induction p arbitrary: t)
  case Nil
  then show ?case by simp
next
  case (Cons k p)
  then obtain cs where cs: "oreferrals t = Some cs" and k: "k < length cs"
    and s: "subtree_at (cs ! k) p = Some sub"
    by (auto split: option.splits if_splits)
  from Cons.IH [OF s] have "set (refs_of sub) \<subseteq> set (refs_of (cs ! k))" .
  moreover have "set (refs_of (cs ! k)) \<subseteq> set (refs_of t)"
    using cs k by (cases t) (auto intro: nth_mem)
  ultimately show ?case by blast
qed

lemma updateNodeH_position:
  "reached a t p \<Longrightarrow>
     \<exists>sub m. subtree_at t p = Some sub \<and> n \<le> m
       \<and> subtree_at (fst (updateNodeH a c t n)) p = Some (fst (updateNodeH a c sub m))"
proof (induction p arbitrary: t n)
  case Nil
  show ?case by (auto simp del: updateNodeH.simps)
next
  case (Cons k p)
  obtain r i ad rs where t: "t = Obj r i ad rs" by (cases t)
  from Cons.prems t obtain cs where na: "ad \<noteq> a" and rs: "rs = Some cs"
    and k: "k < length cs" and re: "reached a (cs ! k) p"
    by (auto split: option.splits)
  from k have ne: "cs \<noteq> []" by auto
  from mapUpdateNodeH_nth [OF k, of "n + 1" a c]
  obtain m1 where m1: "n + 1 \<le> m1"
    "fst (mapUpdateNodeH a c cs (n + 1)) ! k = fst (updateNodeH a c (cs ! k) m1)"
    by blast
  from Cons.IH [OF re, of m1]
  obtain sub m where sub: "subtree_at (cs ! k) p = Some sub" "m1 \<le> m"
    "subtree_at (fst (updateNodeH a c (cs ! k) m1)) p = Some (fst (updateNodeH a c sub m))"
    by blast
  have res: "fst (updateNodeH a c t n) = Obj n i ad (Some (fst (mapUpdateNodeH a c cs (n + 1))))"
    using t na rs ne by (simp add: case_prod_beta)
  have "subtree_at (fst (updateNodeH a c t n)) (k # p) = Some (fst (updateNodeH a c sub m))"
    unfolding res using k m1(2) sub(3) by (simp add: mapUpdateNodeH_length)
  moreover have "subtree_at t (k # p) = Some sub" using t rs k sub(1) by simp
  moreover have "n \<le> m" using m1(1) sub(2) by simp
  ultimately show ?case by blast
qed

lemma updateNodeH_ref:
  "fst (updateNodeH a c t n) = t \<or> ref (fst (updateNodeH a c t n)) = n"
  by (cases t) (auto simp: case_prod_beta split: option.splits)

lemma calls_below:
  "updateNode_calls a u + below a u = countTotalUsers u"
proof (induction a u rule: updateNode_calls.induct)
  case (1 userAddress i a rs)
  show ?case
  proof (cases "a = userAddress")
    case True
    then show ?thesis by (simp add: countTotalUsers_unfold split: option.splits
        del: countTotalUsers.simps)
  next
    case na: False
    show ?thesis
    proof (cases rs)
      case None
      with na show ?thesis by simp
    next
      case (Some cs)
      show ?thesis
      proof (cases "cs = []")
        case True
        with na Some show ?thesis by simp
      next
        case ne: False
        have "map (\<lambda>x. updateNode_calls userAddress x + below userAddress x) cs
                = map countTotalUsers cs"
          using "1.IH" [OF na Some ne] by (intro map_cong) simp_all
        then have "sum_list (map (\<lambda>x. updateNode_calls userAddress x + below userAddress x) cs)
                = sum_list (map countTotalUsers cs)"
          by (rule arg_cong)
        then have "sum_list (map (updateNode_calls userAddress) cs)
                + sum_list (map (below userAddress) cs) = sum_list (map countTotalUsers cs)"
          by (simp only: sum_list_addf)
        with na Some ne show ?thesis
          by (simp add: countTotalUsers_unfold del: countTotalUsers.simps)
      qed
    qed
  qed
qed

lemma below_leaf_targets:
  "\<forall>x \<in> set (nodes u). address x = a \<longrightarrow> referrals x = None \<or> referrals x = Some []
     \<Longrightarrow> below a u = 0"
proof (induction a u rule: below.induct)
  case (1 a i ad rs)
  show ?case
  proof (cases "ad = a")
    case True
    with "1.prems" have "rs = None \<or> rs = Some []" by simp
    with True show ?thesis by auto
  next
    case na: False
    show ?thesis
    proof (cases rs)
      case None
      with na show ?thesis by simp
    next
      case (Some cs)
      have "below a c = 0" if c: "c \<in> set cs" for c
      proof (rule "1.IH" [OF na Some c])
        show "\<forall>x\<in>set (nodes c). address x = a \<longrightarrow> referrals x = None \<or> referrals x = Some []"
          using "1.prems" Some c by auto
      qed
      then have "sum_list (map (below a) cs) = 0" by simp
      with na Some show ?thesis by simp
    qed
  qed
qed

text \<open>
  C2, as stated, fails. In the example the merge at Y, the root's second child, is
  given the next free reference 4. The path to Y is the root and Y, but the root's
  first child X, which is off the path, is not the input's object 1: it is a new object
  5; and \<^verbatim>\<open>updateNode\<close> is called on all four nodes of the snapshot.
\<close>

theorem C2_counterexample:
  "child_refs ex_snapshot = [1, 3]
   \<and> child_refs (fst (updateNodeH ''0xY'' [] ex_snapshot 4)) = [5, 6]
   \<and> updateNode_calls ''0xY'' (erase ex_snapshot) = 4
   \<and> countTotalUsers (erase ex_snapshot) = 4"
  by (simp add: child_refs_def ex_snapshot_def ex_sibling_def)

text \<open>
  C2, amended. Take any snapshot, target address and children list, and any node of
  the snapshot that the merge reaches, that is, a node with no node of the target
  address strictly above it. The node at the same position of the result is
  \<^verbatim>\<open>updateNode\<close> of that node. It is the same object as in the input only when the
  node does not have the target address and its children are unknown or empty;
  otherwise it is a newly allocated object, and this holds on the path to the target
  and off it alike; it is equal in value to the input's node when that node's subtree
  does not contain the target address. Nodes below a node with the target address are
  not visited. The number of calls of \<^verbatim>\<open>updateNode\<close> is the number of nodes of the
  snapshot less the number of nodes strictly below a reached node with the target
  address, which is every node of the snapshot when the nodes with the target address
  have unknown or empty children: the work is not bounded by the length of the path.
\<close>

theorem C2_merge_sharing:
  assumes "reached a t p" and "\<forall>r \<in> set (refs_of t). r < n"
  shows "(\<exists>sub sub'. subtree_at t p = Some sub
            \<and> subtree_at (fst (updateNodeH a c t n)) p = Some sub'
            \<and> (sub' = sub) = (oaddress sub \<noteq> a \<and> (oreferrals sub = None \<or> oreferrals sub = Some []))
            \<and> (sub' \<noteq> sub \<longrightarrow> n \<le> ref sub')
            \<and> erase sub' = updateNode a (map erase c) (erase sub)
            \<and> (a \<notin> set (addresses (erase sub)) \<longrightarrow> erase sub' = erase sub))
     \<and> updateNode_calls a (erase t) + below a (erase t) = countTotalUsers (erase t)
     \<and> ((\<forall>x \<in> set (nodes (erase t)).
            address x = a \<longrightarrow> referrals x = None \<or> referrals x = Some [])
          \<longrightarrow> updateNode_calls a (erase t) = countTotalUsers (erase t))"
proof -
  from updateNodeH_position [OF assms(1), of n c]
  obtain sub m where sub: "subtree_at t p = Some sub" and nm: "n \<le> m"
    and sub': "subtree_at (fst (updateNodeH a c t n)) p = Some (fst (updateNodeH a c sub m))"
    by blast
  define res where "res = fst (updateNodeH a c sub m)"
  have "ref sub \<in> set (refs_of sub)" by (cases sub) simp
  with subtree_at_refs [OF sub] have "ref sub \<in> set (refs_of t)" by (rule subsetD)
  with assms(2) have "ref sub < n" by (rule bspec)
  then have r: "ref sub < m" using nm by (rule less_le_trans)
  have same: "(res = sub) = (oaddress sub \<noteq> a \<and> (oreferrals sub = None \<or> oreferrals sub = Some []))"
    unfolding res_def by (rule updateNodeH_same [OF r])
  have new: "res \<noteq> sub \<longrightarrow> n \<le> ref res"
    using updateNodeH_ref [of a c sub m] nm unfolding res_def by auto
  have val: "erase res = updateNode a (map erase c) (erase sub)"
    unfolding res_def by (rule updateNodeH_erase(1))
  have abs: "a \<notin> set (addresses (erase sub)) \<longrightarrow> erase res = erase sub"
    using val by (simp add: updateNode_absent)
  have first: "\<exists>sub sub'. subtree_at t p = Some sub
            \<and> subtree_at (fst (updateNodeH a c t n)) p = Some sub'
            \<and> (sub' = sub) = (oaddress sub \<noteq> a \<and> (oreferrals sub = None \<or> oreferrals sub = Some []))
            \<and> (sub' \<noteq> sub \<longrightarrow> n \<le> ref sub')
            \<and> erase sub' = updateNode a (map erase c) (erase sub)
            \<and> (a \<notin> set (addresses (erase sub)) \<longrightarrow> erase sub' = erase sub)"
    using sub sub' same new val abs unfolding res_def by blast
  have work: "updateNode_calls a (erase t) + below a (erase t) = countTotalUsers (erase t)"
    by (rule calls_below)
  have leaf: "(\<forall>x \<in> set (nodes (erase t)).
            address x = a \<longrightarrow> referrals x = None \<or> referrals x = Some [])
          \<longrightarrow> updateNode_calls a (erase t) = countTotalUsers (erase t)"
    using work below_leaf_targets [of "erase t" a] by auto
  from first work leaf show ?thesis by (intro conjI)
qed

theorem C2_merge_sharing_witness:
  "reached ''0xY'' ex_snapshot [0] \<and> refs_of ex_snapshot = [0, 1, 2, 3]
   \<and> subtree_at ex_snapshot [0] = Some ex_sibling
   \<and> subtree_at (fst (updateNodeH ''0xY'' [] ex_snapshot 4)) [0]
       = Some (Obj 5 1 ''0xX'' (Some [Obj 2 3 ''0xX1'' None]))
   \<and> subtree_at (fst (updateNodeH ''0xY'' [] ex_snapshot 4)) [0] \<noteq> Some ex_sibling
   \<and> updateNode_calls ''0xY'' (erase ex_snapshot) = countTotalUsers (erase ex_snapshot)
   \<and> updateNode_calls ''0xX'' (erase ex_snapshot) = 3
   \<and> below ''0xX'' (erase ex_snapshot) = 1
   \<and> countTotalUsers (erase ex_snapshot) = 4"
proof -
  have h1: "reached ''0xY'' ex_snapshot [0]"
    by (simp add: ex_snapshot_def ex_sibling_def)
  have h2: "\<forall>r \<in> set (refs_of ex_snapshot). r < 4"
    by (simp add: ex_snapshot_def ex_sibling_def)
  have h3: "\<forall>x \<in> set (nodes (erase ex_snapshot)).
              address x = ''0xY'' \<longrightarrow> referrals x = None \<or> referrals x = Some []"
    by (simp add: ex_snapshot_def ex_sibling_def)
  have e: "refs_of ex_snapshot = [0, 1, 2, 3]"
    "subtree_at ex_snapshot [0] = Some ex_sibling"
    "subtree_at (fst (updateNodeH ''0xY'' [] ex_snapshot 4)) [0]
       = Some (Obj 5 1 ''0xX'' (Some [Obj 2 3 ''0xX1'' None]))"
    "updateNode_calls ''0xX'' (erase ex_snapshot) = 3"
    "below ''0xX'' (erase ex_snapshot) = 1"
    "countTotalUsers (erase ex_snapshot) = 4"
    by (simp_all add: ex_snapshot_def ex_sibling_def)
  have d: "Obj 5 1 ''0xX'' (Some [Obj 2 3 ''0xX1'' None]) \<noteq> ex_sibling"
    by (simp add: ex_sibling_def)
  from C2_merge_sharing [OF h1 h2, of "[]"] h3
  have w: "updateNode_calls ''0xY'' (erase ex_snapshot) = countTotalUsers (erase ex_snapshot)"
    by blast
  from h1 e d w show ?thesis by simp
qed

section \<open>The depth limit\<close>

lemma TreeNode_levels:
  "v \<in> set (instances (TreeNode sts parent u level)) \<Longrightarrow>
     level \<le> vlevel v \<and> (level \<le> 10 \<longrightarrow> vlevel v \<le> 10)
     \<and> length (vkey v) + level = length parent + 1 + vlevel v
     \<and> (10 \<le> vlevel v \<longrightarrow> vchildren v = [])"
proof (induction sts parent u level arbitrary: v rule: TreeNode.induct)
  case (1 sts parent i a rs level)
  show ?case
  proof (cases "v = TreeNode sts parent (User i a rs) level")
    case True
    then show ?thesis by (auto split: option.splits)
  next
    case False
    with "1.prems" obtain cs c where rs: "rs = Some cs"
      and ex: "isExpanded (sts (parent @ [a]))" "0 < length cs" "level < 10"
      and c: "c \<in> set cs" and v: "v \<in> set (instances (TreeNode sts (parent @ [a]) c (level + 1)))"
      by (auto split: option.splits if_splits)
    from "1.IH" [OF rs _ c v] ex
    show ?thesis by auto
  qed
qed

lemma deep_page_levels: "map vlevel (render deep_page) = [0, 1, 2, 3, 4, 5, 6, 7, 8, 9, 10]"
  by code_simp

text \<open>
  C3, as stated, fails. On the page \<open>deep_page\<close> the node at depth 10 is rendered, as
  the last instance, with its button, and a click on it issues the request for its
  children.
\<close>

theorem C3_counterexample:
  "vkey (last (render deep_page)) = key 10
   \<and> vlevel (last (render deep_page)) = 10
   \<and> vbutton (last (render deep_page))
   \<and> snd (click (Some leaf_source) (key 10) deep_page) = [Fetch (label 10)]"
  by code_simp

text \<open>
  C3, amended. Whatever the snapshot and the components' states, every rendered node
  has a level of at most 10, its level is its depth (the length of its key chain less
  one), and a rendered node at level 10 has no rendered children, fetched or not. A
  click at a key chain of depth 11 or more finds no component: it changes nothing and
  issues no request.
\<close>

theorem C3_depth_limit:
  "(\<forall>v \<in> set (render pg).
       vlevel v \<le> 10 \<and> length (vkey v) = vlevel v + 1 \<and> (10 \<le> vlevel v \<longrightarrow> vchildren v = []))
   \<and> (11 < length k \<longrightarrow> click ctx k pg = (pg, []))"
proof -
  have a: "vlevel v \<le> 10 \<and> length (vkey v) = vlevel v + 1 \<and> (10 \<le> vlevel v \<longrightarrow> vchildren v = [])"
    if "v \<in> set (render pg)" for v
  proof (cases "genealogyData pg")
    case None
    with that show ?thesis by (simp add: render_def)
  next
    case (Some root)
    with that have "v \<in> set (instances (TreeNode (states pg) [] root 0))"
      by (simp add: render_def)
    from TreeNode_levels [OF this] show ?thesis by simp
  qed
  have b: "click ctx k pg = (pg, [])" if k: "11 < length k"
  proof (cases "find (\<lambda>v. vkey v = k) (render pg)")
    case None
    then show ?thesis by (simp add: click_def)
  next
    case (Some v)
    then have "v \<in> set (render pg)" and "vkey v = k"
      by (auto simp: find_Some_iff)
    with a [of v] k show ?thesis by simp
  qed
  from a b show ?thesis by blast
qed

theorem C3_depth_limit_witness:
  "last (render deep_page) \<in> set (render deep_page)
   \<and> vlevel (last (render deep_page)) = 10
   \<and> vchildren (last (render deep_page)) = []
   \<and> 11 < length (key 11)
   \<and> snd (click (Some leaf_source) (key 11) deep_page) = []"
proof -
  have ne: "render deep_page \<noteq> []"
    using deep_page_levels by auto
  then have m: "last (render deep_page) \<in> set (render deep_page)"
    by (rule last_in_set)
  have l: "vlevel (last (render deep_page)) = 10"
    using deep_page_levels ne by (simp add: last_map [symmetric])
  have k: "11 < length (key 11)"
    by (simp add: key_def)
  show ?thesis
    using m l k C3_depth_limit [of deep_page "key 11" "Some leaf_source"]
    by auto
qed

section \<open>The expand affordance\<close>

text \<open>
  C4, as stated, fails. On the page freshly made for the example, where nothing has
  been toggled, the nodes X and Y, whose children are unknown, are rendered with the
  button.
\<close>

theorem C4_counterexample:
  "map vuser (render (init_page scenario)) = [scenario, nodeX, nodeY]
   \<and> map vbutton (render (init_page scenario)) = [True, True, True]
   \<and> referrals nodeX = None \<and> referrals nodeY = None"
  by (simp add: render_def init_page_def scenario_def nodeX_def nodeY_def initial_state_def
        hasChildren_def)

text \<open>
  C4, amended. A node whose children are known to be empty has no button; a node whose
  children are unknown has the button, toggled or not: the button is there exactly when
  the children are not the empty array.
\<close>

theorem C4_affordance:
  "(referrals u = Some [] \<longrightarrow> \<not> vbutton (TreeNode sts parent u level))
   \<and> (referrals u = None \<longrightarrow> vbutton (TreeNode sts parent u level))
   \<and> vbutton (TreeNode sts parent u level) = (referrals u \<noteq> Some [])"
  by (cases u) (auto simp: hasChildren_def split: option.splits)

theorem C4_affordance_witness:
  "referrals (User 1 ''0xX'' (Some [])) = Some []
   \<and> \<not> vbutton (TreeNode (states (init_page scenario)) [''0xR''] (User 1 ''0xX'' (Some [])) 1)
   \<and> referrals nodeY = None
   \<and> vbutton (TreeNode (states (init_page scenario)) [''0xR''] nodeY 1)"
  using C4_affordance [of "User 1 ''0xX'' (Some [])" "states (init_page scenario)" "[''0xR'']" 1]
    C4_affordance [of nodeY "states (init_page scenario)" "[''0xR'']" 1]
  by (simp add: nodeY_def)

section \<open>The direct-referral count\<close>

text \<open>
  C5, as stated, fails. For a root whose children are known to be empty the counters
  are rendered, and the direct-referral count is 0, not absent.
\<close>

theorem C5_counterexample:
  "directReferralCount (User 0 ''0xR'' (Some [])) = Some 0"
  by (simp add: directReferralCount_def)

text \<open>
  C5, amended. The direct-referral count is the length of the root's children array
  whenever the children are known, which is 0 when the array is empty, and it is absent
  exactly when the root's children are unknown. The total is rendered with it.
\<close>

theorem C5_directReferralCount:
  "directReferralCount (User i a (Some cs)) = Some (length cs)
   \<and> directReferralCount (User i a None) = None
   \<and> header (User i a (Some cs)) =
       Some \<lparr>total = countTotalUsers (User i a (Some cs)), direct = length cs\<rparr>
   \<and> header (User i a None) = None"
  by (simp add: directReferralCount_def)

section \<open>Uniqueness of addresses\<close>

lemma ids_User:
  "ids (User i a rs) =
     i # (case rs of Some cs \<Rightarrow> concat (map ids cs) | None \<Rightarrow> [])"
  by (simp add: ids_def [abs_def] map_concat comp_def split: option.splits)

lemma round_double_exact: "p < 2 ^ 53 \<Longrightarrow> round_double p = p"
  by (simp add: round_double_def)

lemma generateDemoAddress_period:
  assumes "(s + 16) * 40 < 2 ^ 53"
  shows "generateDemoAddress (s + 16) = generateDemoAddress s"
proof -
  have len: "length characters = 16" by (simp add: characters_def)
  have step: "round_double ((s + 16) * (i + 1)) mod 16 = round_double (s * (i + 1)) mod 16"
    if "i \<in> set [0..<40]" for i
  proof -
    from that have i: "i + 1 \<le> 40" by simp
    have "(s + 16) * (i + 1) \<le> (s + 16) * 40"
      using i by (rule mult_le_mono2)
    then have b1: "(s + 16) * (i + 1) < 2 ^ 53" using assms by (rule le_less_trans)
    have "s * (i + 1) \<le> (s + 16) * (i + 1)" by (rule mult_le_mono1) simp
    then have b2: "s * (i + 1) < 2 ^ 53" using b1 by (rule le_less_trans)
    have "(s + 16) * (i + 1) = s * (i + 1) + 16 * (i + 1)" by (simp add: algebra_simps)
    then have "((s + 16) * (i + 1)) mod 16 = (s * (i + 1)) mod 16"
      by (simp only: mod_mult_self2)
    then show ?thesis by (simp only: round_double_exact [OF b1] round_double_exact [OF b2])
  qed
  show ?thesis
    unfolding generateDemoAddress_def len
    by (rule fold_cong) (simp_all only: step)
qed

text \<open>
  Beyond that bound products are rounded: here the exact product ends in the digits 995
  and lies halfway between two doubles, and the one with the even significand is taken.
\<close>

lemma round_double_tie: "round_double ((818836295885529 + 16) * 11) = 9007199254740996"
  by (simp add: round_double_def Let_def)

lemma createNode_10: "createNode 10 n = (User (int n) (generateDemoAddress n) None, n + 1)"
  by (simp add: Let_def)

lemma createNode_lt:
  "level < 10 \<Longrightarrow> createNode level n =
     (User (int n) (generateDemoAddress n) (Some [fst (createNode (level + 1) (n + 1))]),
      snd (createNode (level + 1) (n + 1)))"
  by (subst createNode.simps) (simp add: Let_def split: prod.splits)

lemma createNode_chain:
  "k \<le> 10 \<Longrightarrow>
     snd (createNode (10 - k) n) = n + k + 1
     \<and> ids (fst (createNode (10 - k) n)) = map int [n..<n + k + 1]
     \<and> addresses (fst (createNode (10 - k) n)) = map generateDemoAddress [n..<n + k + 1]"
proof (induction k arbitrary: n)
  case 0
  show ?case by (simp add: createNode_10 ids_User addresses_User del: createNode.simps)
next
  case (Suc k)
  then have lt: "10 - Suc k < 10" and s: "10 - Suc k + 1 = 10 - k" and le: "k \<le> 10" by auto
  have u: "[n..<n + Suc k + 1] = n # [n + 1..<n + 1 + k + 1]"
    by (subst upt_conv_Cons) auto
  from Suc.IH [OF le, of "n + 1"] show ?case
    unfolding createNode_lt [OF lt] s u
    by (simp add: ids_User addresses_User del: createNode.simps upt_Suc)
qed

lemma createNode_1:
  "snd (createNode (Suc 0) n) = n + 10"
  "ids (fst (createNode (Suc 0) n)) = map int [n..<n + 10]"
  "addresses (fst (createNode (Suc 0) n)) = map generateDemoAddress [n..<n + 10]"
proof -
  have a: "(10::nat) - 9 = Suc 0" and b: "n + 9 + 1 = n + 10" and c: "9 \<le> (10::nat)"
    by simp_all
  from createNode_chain [OF c, of n]
  show "snd (createNode (Suc 0) n) = n + 10"
    and "ids (fst (createNode (Suc 0) n)) = map int [n..<n + 10]"
    and "addresses (fst (createNode (Suc 0) n)) = map generateDemoAddress [n..<n + 10]"
    unfolding a b by blast+
qed

lemma generateDemoTree_ids: "ids generateDemoTree = map int [0..<31]"
proof -
  have "ids generateDemoTree = 0 # map int [1..<11] @ map int [11..<21] @ map int [21..<31]"
    unfolding generateDemoTree_def
    by (simp add: Let_def case_prod_beta createNode_1 ids_User del: createNode.simps upt_Suc upt_rec_numeral)
  also have "\<dots> = map int (0 # [1..<11] @ [11..<21] @ [21..<31])" by simp
  also have "0 # [1..<11] @ [11..<21] @ [21..<31] = [0..<31::nat]"
    by (simp add: upt_conv_Cons)
  finally show ?thesis .
qed

lemma generateDemoTree_addresses:
  "addresses generateDemoTree =
     ''0xYourDemoAddress1234567890'' # map generateDemoAddress [1..<11]
       @ map generateDemoAddress [11..<21] @ map generateDemoAddress [21..<31]"
  unfolding generateDemoTree_def
  by (simp add: Let_def case_prod_beta createNode_1 addresses_User del: createNode.simps upt_Suc upt_rec_numeral)

lemma updateNode_addresses_subset:
  "set (addresses (updateNode a c u)) \<subseteq> set (addresses u) \<union> set (concat (map addresses c))"
proof (induction a c u rule: updateNode.induct)
  case (1 userAddress refs i a rs)
  show ?case
  proof (cases "a \<noteq> userAddress \<and> (\<exists>cs. rs = Some cs \<and> cs \<noteq> [])")
    case False
    then show ?thesis by (auto simp: addresses_User split: option.splits)
  next
    case True
    then obtain cs where na: "a \<noteq> userAddress" and rs: "rs = Some cs" and ne: "cs \<noteq> []"
      by blast
    have "set (addresses (updateNode userAddress refs x))
            \<subseteq> set (addresses x) \<union> set (concat (map addresses refs))" if "x \<in> set cs" for x
      using "1.IH" [OF na rs ne that] .
    then have "(\<Union>x\<in>set cs. set (addresses (updateNode userAddress refs x)))
            \<subseteq> (\<Union>x\<in>set cs. set (addresses x)) \<union> set (concat (map addresses refs))"
      by blast
    then show ?thesis using na rs ne
      by (auto simp: addresses_User)
  qed
qed




lemma distinct_concat_member:
  "distinct (concat (map f cs)) \<Longrightarrow> x \<in> set cs \<Longrightarrow> distinct (f x)"
  by (induction cs) auto

lemma distinct_concat_update:
  assumes "distinct (concat (map f cs))"
    and "\<And>x. x \<in> set cs \<Longrightarrow> distinct (g x)"
    and "\<And>x. x \<in> set cs \<Longrightarrow> set (g x) \<subseteq> set (f x) \<union> N"
    and "\<And>x. x \<in> set cs \<Longrightarrow> a \<notin> set (f x) \<Longrightarrow> g x = f x"
    and "N \<inter> set (concat (map f cs)) = {}"
  shows "distinct (concat (map g cs))"
  using assms
proof (induction cs)
  case Nil
  show ?case by simp
next
  case (Cons x cs)
  note p = Cons.prems
  have dx: "distinct (f x)" and dcs: "distinct (concat (map f cs))"
    and fx: "set (f x) \<inter> set (concat (map f cs)) = {}"
    using p(1) by simp_all
  have Nx: "N \<inter> set (f x) = {}" and Ncs: "N \<inter> set (concat (map f cs)) = {}"
    using p(5) by (simp_all add: Int_Un_distrib)
  have mem: "y \<in> set (x # cs)" if "y \<in> set cs" for y using that by simp
  have d: "distinct (concat (map g cs))"
  proof (rule Cons.IH)
    show "distinct (concat (map f cs))" by (rule dcs)
    show "distinct (g y)" if "y \<in> set cs" for y by (rule p(2) [OF mem [OF that]])
    show "set (g y) \<subseteq> set (f y) \<union> N" if "y \<in> set cs" for y by (rule p(3) [OF mem [OF that]])
    show "g y = f y" if "y \<in> set cs" "a \<notin> set (f y)" for y
      by (rule p(4) [OF mem [OF that(1)] that(2)])
    show "N \<inter> set (concat (map f cs)) = {}" by (rule Ncs)
  qed
  have sub: "set (concat (map g cs)) \<subseteq> set (concat (map f cs)) \<union> N"
  proof
    fix z assume "z \<in> set (concat (map g cs))"
    then obtain y where y: "y \<in> set cs" "z \<in> set (g y)" by auto
    from p(3) [OF mem [OF y(1)]] y(2) have "z \<in> set (f y) \<or> z \<in> N" by blast
    with y(1) show "z \<in> set (concat (map f cs)) \<union> N" by auto
  qed
  have gx: "set (g x) \<subseteq> set (f x) \<union> N" by (rule p(3)) simp
  have disj: "set (g x) \<inter> set (concat (map g cs)) = {}"
  proof (cases "a \<in> set (f x)")
    case True
    then have an: "a \<notin> set (concat (map f cs))" using fx by blast
    have "g y = f y" if "y \<in> set cs" for y
    proof (rule p(4) [OF mem [OF that]])
      show "a \<notin> set (f y)" using an that by auto
    qed
    then have "map g cs = map f cs" by (intro map_cong) simp_all
    then have "concat (map g cs) = concat (map f cs)" by (rule arg_cong)
    then show ?thesis using gx fx Ncs by (simp only:) blast
  next
    case False
    have "g x = f x" by (rule p(4) [OF _ False]) simp
    then show ?thesis using sub fx Nx by (simp only:) blast
  qed
  have "distinct (g x)" by (rule p(2)) simp
  then show ?case using d disj by simp
qed

lemma updateNode_distinct:
  "distinct (addresses s) \<Longrightarrow> distinct (concat (map addresses c)) \<Longrightarrow>
   set (concat (map addresses c)) \<inter> set (addresses s) = {} \<Longrightarrow>
   distinct (addresses (updateNode a c s))"
proof (induction a c s rule: updateNode.induct)
  case (1 userAddress refs i a rs)
  define N where "N = set (concat (map addresses refs))"
  show ?case
  proof (cases "a = userAddress")
    case True
    with "1.prems" show ?thesis by (auto simp: addresses_User)
  next
    case na: False
    show ?thesis
    proof (cases rs)
      case None
      with na "1.prems" show ?thesis by simp
    next
      case (Some cs)
      show ?thesis
      proof (cases "cs = []")
        case True
        with na Some "1.prems" show ?thesis by simp
      next
        case ne: False
        have dcs: "distinct (concat (map addresses cs))"
          and acs: "a \<notin> set (concat (map addresses cs))"
          and Ncs: "N \<inter> set (concat (map addresses cs)) = {}"
          and aN: "a \<notin> N"
          using "1.prems" Some by (auto simp: addresses_User N_def)
        have each: "distinct (addresses (updateNode userAddress refs x))" if "x \<in> set cs" for x
        proof -
          have "distinct (addresses x)" using dcs that by (rule distinct_concat_member)
          moreover have "set (concat (map addresses refs)) \<inter> set (addresses x) = {}"
            using Ncs that by (auto simp: N_def)
          ultimately show ?thesis
            using "1.prems"(2) by (intro "1.IH" [OF na Some ne that])
        qed
        have sub: "set (addresses (updateNode userAddress refs x)) \<subseteq> set (addresses x) \<union> N" for x
          unfolding N_def by (rule updateNode_addresses_subset)
        have "distinct (concat (map (\<lambda>x. addresses (updateNode userAddress refs x)) cs))"
        proof (rule distinct_concat_update [where f = addresses and N = N and a = userAddress])
          show "distinct (concat (map addresses cs))" by (rule dcs)
          show "N \<inter> set (concat (map addresses cs)) = {}" by (rule Ncs)
        qed (simp_all add: each sub updateNode_absent)
        moreover have "a \<notin> set (concat (map (\<lambda>x. addresses (updateNode userAddress refs x)) cs))"
        proof
          assume "a \<in> set (concat (map (\<lambda>x. addresses (updateNode userAddress refs x)) cs))"
          then obtain x where x: "x \<in> set cs" "a \<in> set (addresses (updateNode userAddress refs x))"
            by auto
          with sub [of x] have "a \<in> set (addresses x) \<or> a \<in> N" by auto
          with x acs aN show False by auto
        qed
        ultimately show ?thesis using na Some ne
          by (simp add: addresses_User comp_def)
      qed
    qed
  qed
qed

text \<open>
  C9, as stated, fails on the demo generator's tree: \<^verbatim>\<open>generateDemoAddress\<close> gives
  the nodes 1 and 17 the same address.
\<close>

theorem C9_counterexample: "\<not> distinct (addresses generateDemoTree)"
proof -
  define A where "A = map generateDemoAddress [1..<11]"
  define B where "B = map generateDemoAddress [11..<21]"
  define C where "C = map generateDemoAddress [21..<31]"
  have e: "generateDemoAddress 17 = generateDemoAddress 1"
    using generateDemoAddress_period [of 1] by simp
  have "generateDemoAddress 1 \<in> generateDemoAddress ` set [1..<11]"
    by (rule imageI) simp
  then have m1: "generateDemoAddress 1 \<in> set A"
    by (simp only: A_def set_map)
  have "generateDemoAddress 17 \<in> generateDemoAddress ` set [11..<21]"
    by (rule imageI) simp
  then have m2: "generateDemoAddress 1 \<in> set B"
    by (simp only: B_def set_map e)
  from m1 m2 have "\<not> distinct (A @ B @ C)"
    by auto
  then have "\<not> distinct (''0xYourDemoAddress1234567890'' # A @ B @ C)"
    by simp
  then show ?thesis
    unfolding generateDemoTree_addresses A_def B_def C_def .
qed

text \<open>
  C9, amended. The nodes of the demo generator's tree have the identifiers 0 to 30,
  pairwise distinct, while \<^verbatim>\<open>generateDemoAddress\<close> gives the seeds \<open>seed\<close> and
  \<open>seed + 16\<close> the same address as long as its products are exact, that is, when
  \<open>(seed + 16) * 40\<close> is below \<open>2^53\<close>, which covers the generator's seeds. A merge
  keeps the addresses of a snapshot pairwise distinct when they were so before, and the
  new children's addresses are pairwise distinct and none of them occurs in the
  snapshot.
\<close>

theorem C9_uniqueness:
  "ids generateDemoTree = map int [0..<31]
   \<and> distinct (ids generateDemoTree)
   \<and> ((seed + 16) * 40 < 2 ^ 53 \<longrightarrow> generateDemoAddress (seed + 16) = generateDemoAddress seed)
   \<and> (distinct (addresses s) \<and> distinct (concat (map addresses c))
        \<and> set (concat (map addresses c)) \<inter> set (addresses s) = {}
      \<longrightarrow> distinct (addresses (updateNode a c s)))"
proof -
  have "distinct (map int [0..<31])"
    by (simp only: distinct_map distinct_upt) (simp add: inj_on_def)
  then show ?thesis
    using generateDemoTree_ids generateDemoAddress_period [of seed] updateNode_distinct [of s c a]
    by (simp only:) blast
qed

theorem C9_uniqueness_witness:
  "distinct (addresses scenario)
   \<and> addresses (updateNode ''0xX'' [User 3 ''0xW'' None] scenario)
       = [''0xR'', ''0xX'', ''0xW'', ''0xY'']
   \<and> distinct (addresses (updateNode ''0xX'' [User 3 ''0xW'' None] scenario))
   \<and> generateDemoAddress (1 + 16) = generateDemoAddress 1"
proof -
  have h: "distinct (addresses scenario)"
    "distinct (concat (map addresses [User 3 ''0xW'' None]))"
    "set (concat (map addresses [User 3 ''0xW'' None])) \<inter> set (addresses scenario) = {}"
    "addresses (updateNode ''0xX'' [User 3 ''0xW'' None] scenario)
       = [''0xR'', ''0xX'', ''0xW'', ''0xY'']"
    by (simp_all add: scenario_def nodeX_def nodeY_def addresses_User)
  have b: "((1::nat) + 16) * 40 < 2 ^ 53" by simp
  show ?thesis
    using h b C9_uniqueness [of 1 scenario "[User 3 ''0xW'' None]" "''0xX''"]
    by blast
qed

end
